theory Spec2Isabelle
  imports Main "HOL-Library.AList" "HOL-Library.Multiset"
begin

section \<open>Python text\<close>

text \<open>
  A Python \<^verbatim>\<open>str\<close> is a sequence of code points, and iterating over it yields strings
  of length one. The model covers the code points U+0000 to U+00FF: a \<^typ>\<open>char\<close> stands
  for the code point with the same number (the Latin-1 block), not for a byte of an
  encoding, and a \<^typ>\<open>string\<close> is a \<^verbatim>\<open>str\<close> over these code points. The block is
  closed under \<^verbatim>\<open>str.lower\<close>, the only case conversion the puzzle itself performs.
\<close>

definition code_point :: "char \<Rightarrow> nat" where
  "code_point c = of_char c"

text \<open>The Unicode property Uppercase on the block: A-Z, U+00C0-U+00D6, U+00D8-U+00DE.\<close>

definition ch_isupper :: "char \<Rightarrow> bool" where
  "ch_isupper c =
     (let n = code_point c
      in (65 \<le> n \<and> n \<le> 90) \<or> (192 \<le> n \<and> n \<le> 214) \<or> (216 \<le> n \<and> n \<le> 222))"

text \<open>
  The Unicode property Lowercase on the block: a-z, U+00AA, U+00B5, U+00BA,
  U+00DF-U+00F6, U+00F8-U+00FF.
\<close>

definition ch_islower :: "char \<Rightarrow> bool" where
  "ch_islower c =
     (let n = code_point c
      in (97 \<le> n \<and> n \<le> 122) \<or> n = 170 \<or> n = 181 \<or> n = 186
         \<or> (223 \<le> n \<and> n \<le> 246) \<or> (248 \<le> n \<and> n \<le> 255))"

text \<open>The letters (general categories L*) of the block.\<close>

definition ch_isalpha :: "char \<Rightarrow> bool" where
  "ch_isalpha c =
     (let n = code_point c
      in (65 \<le> n \<and> n \<le> 90) \<or> (97 \<le> n \<and> n \<le> 122) \<or> n = 170 \<or> n = 181 \<or> n = 186
         \<or> (192 \<le> n \<and> n \<le> 214) \<or> (216 \<le> n \<and> n \<le> 246) \<or> (248 \<le> n \<and> n \<le> 255))"

text \<open>
  \<^verbatim>\<open>isalnum\<close> holds of a character that is alphabetic, decimal, a digit or numeric:
  on the block the letters, 0-9, the superscripts U+00B2, U+00B3, U+00B9 and the
  fractions U+00BC-U+00BE.
\<close>

definition ch_isalnum :: "char \<Rightarrow> bool" where
  "ch_isalnum c =
     (let n = code_point c
      in ch_isalpha c \<or> (48 \<le> n \<and> n \<le> 57) \<or> n = 178 \<or> n = 179 \<or> n = 185
         \<or> (188 \<le> n \<and> n \<le> 190))"

text \<open>Lowercasing moves an uppercase letter of the block 32 places up and keeps the rest.\<close>

definition ch_lower :: "char \<Rightarrow> char" where
  "ch_lower c = (if ch_isupper c then char_of (code_point c + 32) else c)"

definition str_lower :: "string \<Rightarrow> string" where
  "str_lower s = map ch_lower s"

text \<open>
  \<^verbatim>\<open>s.isupper()\<close>: no character of \<open>s\<close> is lowercase (or titlecase, of which the block
  has none) and at least one is uppercase; \<^verbatim>\<open>s.islower()\<close> is the mirror image.
  \<^verbatim>\<open>s.isalpha()\<close> and \<^verbatim>\<open>s.isalnum()\<close>: \<open>s\<close> is not empty and all its characters are.
\<close>

definition str_isupper :: "string \<Rightarrow> bool" where
  "str_isupper s = ((\<forall>c \<in> set s. \<not> ch_islower c) \<and> (\<exists>c \<in> set s. ch_isupper c))"

definition str_islower :: "string \<Rightarrow> bool" where
  "str_islower s = ((\<forall>c \<in> set s. \<not> ch_isupper c) \<and> (\<exists>c \<in> set s. ch_islower c))"

definition str_isalpha :: "string \<Rightarrow> bool" where
  "str_isalpha s = (s \<noteq> [] \<and> (\<forall>c \<in> set s. ch_isalpha c))"

definition str_isalnum :: "string \<Rightarrow> bool" where
  "str_isalnum s = (s \<noteq> [] \<and> (\<forall>c \<in> set s. ch_isalnum c))"

text \<open>Iterating over a \<^verbatim>\<open>str\<close> (also \<^verbatim>\<open>list(s)\<close>), and \<^verbatim>\<open>''.join\<close>.\<close>

definition iter_str :: "string \<Rightarrow> string list" where
  "iter_str s = map (\<lambda>c. [c]) s"

definition join :: "string list \<Rightarrow> string" where
  "join parts = concat parts"

definition ascii_lowercase :: string where
  "ascii_lowercase = ''abcdefghijklmnopqrstuvwxyz''"

definition ascii_uppercase :: string where
  "ascii_uppercase = ''ABCDEFGHIJKLMNOPQRSTUVWXYZ''"

section \<open>Dictionaries\<close>

text \<open>
  A \<^verbatim>\<open>dict\<close> keeps its items in insertion order and the puzzle iterates over
  \<^verbatim>\<open>items()\<close>, so a dictionary is an association list: \<^verbatim>\<open>d[k] = v\<close> replaces the value
  of a present key in place and appends an absent one, \<^verbatim>\<open>del d[k]\<close> removes the item.
\<close>

type_synonym pydict = "(string \<times> string) list"

definition dict_contains :: "string \<Rightarrow> pydict \<Rightarrow> bool" where
  "dict_contains k d = (k \<in> fst ` set d)"

definition dict_set :: "string \<Rightarrow> string \<Rightarrow> pydict \<Rightarrow> pydict" where
  "dict_set k v d = AList.update k v d"

definition dict_del :: "string \<Rightarrow> pydict \<Rightarrow> pydict" where
  "dict_del k d = AList.delete k d"

text \<open>\<^verbatim>\<open>d.get(k, default)\<close>.\<close>

definition dict_get :: "pydict \<Rightarrow> string \<Rightarrow> string \<Rightarrow> string" where
  "dict_get d k dflt = (case map_of d k of Some v \<Rightarrow> v | None \<Rightarrow> dflt)"

text \<open>\<^verbatim>\<open>d[k]\<close>; the puzzle reads it only behind the test \<^verbatim>\<open>k in d\<close>.\<close>

definition dict_item :: "pydict \<Rightarrow> string \<Rightarrow> string" where
  "dict_item d k = the (map_of d k)"

text \<open>\<^verbatim>\<open>dict(pairs)\<close> stores the pairs one after the other.\<close>

definition dict_of :: "(string \<times> string) list \<Rightarrow> pydict" where
  "dict_of pairs = foldl (\<lambda>d (k, v). dict_set k v d) [] pairs"

section \<open>The puzzle\<close>

record puzzle =
  plaintext :: string
  cipher_mapping :: pydict
  user_guesses :: pydict

text \<open>
  \<^verbatim>\<open>random.shuffle\<close> leaves some rearrangement of the list it is given, which is the
  argument \<open>shuffled\<close> of the model. \<^verbatim>\<open>random.choice(seq)\<close> returns \<^verbatim>\<open>seq[i]\<close> for a
  drawn index \<open>i\<close> below the length; the model takes the raw draw \<open>r\<close> and reduces it
  modulo the length, so that every draw selects an element and every element is
  selected by some draw.
\<close>

definition shuffle_outcome :: "string list \<Rightarrow> bool" where
  "shuffle_outcome shuffled = (mset shuffled = mset (iter_str ascii_uppercase))"

definition random_choice :: "nat \<Rightarrow> 'a list \<Rightarrow> 'a" where
  "random_choice r seq = seq ! (r mod length seq)"

definition generate_cipher :: "string list \<Rightarrow> puzzle \<Rightarrow> puzzle" where
  "generate_cipher shuffled p =
     (let alphabet = iter_str ascii_lowercase
      in p\<lparr>cipher_mapping := dict_of (zip alphabet shuffled)\<rparr>)"

definition Puzzle_init :: "string list \<Rightarrow> string \<Rightarrow> puzzle" where
  "Puzzle_init shuffled text =
     generate_cipher shuffled
       \<lparr>plaintext = str_lower text, cipher_mapping = [], user_guesses = []\<rparr>"

definition get_ciphertext :: "puzzle \<Rightarrow> string" where
  "get_ciphertext p = join (map (\<lambda>c. dict_get (cipher_mapping p) c c) (iter_str (plaintext p)))"

definition guess_piece :: "puzzle \<Rightarrow> string \<Rightarrow> string" where
  "guess_piece p char =
     (if str_isalpha char \<and> dict_contains char (user_guesses p)
        then dict_item (user_guesses p) char
      else if str_isalpha char then ''_''
      else char)"

definition get_current_guess :: "puzzle \<Rightarrow> string" where
  "get_current_guess p = join (map (guess_piece p) (iter_str (get_ciphertext p)))"

text \<open>
  The loop of \<^verbatim>\<open>make_guess\<close> over \<^verbatim>\<open>cipher_mapping.items()\<close>: it returns at the first
  item whose cipher letter is the guessed one.
\<close>

fun make_guess_loop :: "pydict \<Rightarrow> string \<Rightarrow> string \<Rightarrow> puzzle \<Rightarrow> bool \<times> puzzle" where
  "make_guess_loop [] cipher_char plain_char p = (False, p)"
| "make_guess_loop ((real_plain_char, mapped_cipher_char) # items) cipher_char plain_char p =
     (if mapped_cipher_char = cipher_char
      then (if real_plain_char = plain_char
            then (True, p\<lparr>user_guesses := dict_set cipher_char plain_char (user_guesses p)\<rparr>)
            else (False, p))
      else make_guess_loop items cipher_char plain_char p)"

definition make_guess :: "string \<Rightarrow> string \<Rightarrow> puzzle \<Rightarrow> bool \<times> puzzle" where
  "make_guess cipher_char plain_char p =
     (if \<not> (str_isupper cipher_char \<and> str_islower plain_char) then (False, p)
      else make_guess_loop (cipher_mapping p) cipher_char plain_char p)"

definition undo_guess :: "string \<Rightarrow> puzzle \<Rightarrow> bool \<times> puzzle" where
  "undo_guess cipher_char p =
     (if dict_contains cipher_char (user_guesses p)
      then (True, p\<lparr>user_guesses := dict_del cipher_char (user_guesses p)\<rparr>)
      else (False, p))"

definition clear_guesses :: "puzzle \<Rightarrow> puzzle" where
  "clear_guesses p = p\<lparr>user_guesses := []\<rparr>"

definition is_solved :: "puzzle \<Rightarrow> bool" where
  "is_solved p = (get_current_guess p = plaintext p)"

definition unguessed :: "puzzle \<Rightarrow> string list" where
  "unguessed p =
     filter (\<lambda>cipher_char. str_isalpha cipher_char \<and> \<not> dict_contains cipher_char (user_guesses p))
       (iter_str (get_ciphertext p))"

fun give_hint_loop :: "pydict \<Rightarrow> string \<Rightarrow> puzzle \<Rightarrow> (string \<times> string) option \<times> puzzle" where
  "give_hint_loop [] chosen_cipher p = (None, p)"
| "give_hint_loop ((real_plain_char, mapped_cipher_char) # items) chosen_cipher p =
     (if mapped_cipher_char = chosen_cipher
      then (Some (chosen_cipher, real_plain_char),
            p\<lparr>user_guesses := dict_set chosen_cipher real_plain_char (user_guesses p)\<rparr>)
      else give_hint_loop items chosen_cipher p)"

definition give_hint :: "nat \<Rightarrow> puzzle \<Rightarrow> (string \<times> string) option \<times> puzzle" where
  "give_hint r p =
     (if unguessed p = [] then (None, p)
      else give_hint_loop (cipher_mapping p) (random_choice r (unguessed p)) p)"


section \<open>The whole-text solve command\<close>

text \<open>
  \<^verbatim>\<open>active_puzzles\<close> maps a user id to that user's puzzle. The command \<^verbatim>\<open>!solve\<close>
  answers with one message and may end the session; the model returns the message
  and the registry after the call.
\<close>

type_synonym registry = "int \<Rightarrow> puzzle option"

datatype reply = No_active_puzzle | Congratulations | Sorry_no_match

definition normalize :: "string \<Rightarrow> string" where
  "normalize text = join (filter str_isalnum (iter_str (str_lower text)))"

definition solve_puzzle :: "int \<Rightarrow> string \<Rightarrow> registry \<Rightarrow> reply \<times> registry" where
  "solve_puzzle author guess_text active_puzzles =
     (case active_puzzles author of
        None \<Rightarrow> (No_active_puzzle, active_puzzles)
      | Some puzzle \<Rightarrow>
          (let guess_norm = normalize guess_text;
               plaintext_norm = normalize (plaintext puzzle)
           in if guess_norm = plaintext_norm
              then (Congratulations, active_puzzles(author := None))
              else (Sorry_no_match, active_puzzles)))"

text \<open>
  The normalization as the specification words it: remove every character that is not
  alphanumeric, and lowercase what remains.
\<close>

definition spec_normalize :: "string \<Rightarrow> string" where
  "spec_normalize text = str_lower (filter ch_isalnum text)"

section \<open>Reachable puzzles\<close>

text \<open>
  A puzzle is created by the constructor, on any text and with any outcome of the
  shuffle, and then changed by the four mutating methods only, called with any
  arguments and any random draw.
\<close>

inductive reachable :: "puzzle \<Rightarrow> bool" where
  init: "shuffle_outcome shuffled \<Longrightarrow> reachable (Puzzle_init shuffled text)"
| guess: "reachable p \<Longrightarrow> reachable (snd (make_guess cipher_char plain_char p))"
| undo: "reachable p \<Longrightarrow> reachable (snd (undo_guess cipher_char p))"
| clear: "reachable p \<Longrightarrow> reachable (clear_guesses p)"
| hint: "reachable p \<Longrightarrow> reachable (snd (give_hint r p))"

text \<open>Every revealed pair is a pair of the cipher mapping, read from cipher to plain.\<close>

definition consistent :: "puzzle \<Rightarrow> bool" where
  "consistent p = (set (user_guesses p) \<subseteq> (set (cipher_mapping p))\<inverse>)"

text \<open>
  Calling \<^verbatim>\<open>give_hint\<close> again and again until it returns \<^verbatim>\<open>None\<close>; \<open>draws i\<close> is the
  random draw of call number \<open>i\<close>. The result is the puzzle at the moment \<^verbatim>\<open>None\<close> is
  returned, and \<open>None\<close> of the model if that never happens.
\<close>

partial_function (option) hint_until_none :: "(nat \<Rightarrow> nat) \<Rightarrow> nat \<Rightarrow> puzzle \<Rightarrow> puzzle option" where
  "hint_until_none draws i p =
     (case give_hint (draws i) p of
        (None, p') \<Rightarrow> Some p'
      | (Some hint, p') \<Rightarrow> hint_until_none draws (Suc i) p')"

section \<open>The scenario of the specification\<close>

text \<open>
  A shuffle outcome under which \<open>h\<close>, \<open>i\<close>, \<open>t\<close>, \<open>e\<close>, \<open>r\<close> are enciphered as \<open>Q\<close>, \<open>Z\<close>,
  \<open>M\<close>, \<open>X\<close>, \<open>K\<close>, and the puzzle it gives on the text \<open>hi there\<close>.
\<close>

definition scenario_shuffled :: "string list" where
  "scenario_shuffled = iter_str ''BCDEXFGQZHIJLNOPRKSMTUVWYA''"

definition scenario :: puzzle where
  "scenario = Puzzle_init scenario_shuffled ''hi there''"


text \<open>
  A quotation with a letter outside the 26 of the cipher: \<open>Caf\<close> followed by U+00E9, the
  letter e with an acute accent.
\<close>

definition cafe :: puzzle where
  "cafe = Puzzle_init scenario_shuffled [CHR ''C'', CHR ''a'', CHR ''f'', CHR 0xE9]"

text \<open>
  Every letter of the plaintext is one of the 26 letters the cipher maps. The constructor
  has lowercased the text, so these are the letters \<open>a\<close> to \<open>z\<close>.
\<close>

definition letters_mapped :: "puzzle \<Rightarrow> bool" where
  "letters_mapped p = (\<forall>c \<in> set (plaintext p). ch_isalpha c \<longrightarrow> c \<in> set ascii_lowercase)"

section \<open>Basic facts\<close>

lemma iter_str_Nil [simp]: "iter_str [] = []"
  by (simp add: iter_str_def)

lemma iter_str_Cons [simp]: "iter_str (c # s) = [c] # iter_str s"
  by (simp add: iter_str_def)

lemma length_iter_str [simp]: "length (iter_str s) = length s"
  by (simp add: iter_str_def)

lemma set_iter_str: "set (iter_str s) = (\<lambda>c. [c]) ` set s"
  by (simp add: iter_str_def)

lemma distinct_iter_str: "distinct s \<Longrightarrow> distinct (iter_str s)"
  by (simp add: iter_str_def distinct_map inj_on_def)

lemma join_iter_str [simp]: "join (iter_str s) = s"
  by (induction s) (simp_all add: join_def)

lemma distinct_ascii_lowercase: "distinct ascii_lowercase"
  by (simp add: ascii_lowercase_def)

lemma distinct_ascii_uppercase: "distinct ascii_uppercase"
  by (simp add: ascii_uppercase_def)

lemma shuffle_outcome_length: "shuffle_outcome shuffled \<Longrightarrow> length shuffled = 26"
  unfolding shuffle_outcome_def
  by (drule mset_eq_length) (simp add: ascii_uppercase_def)

lemma shuffle_outcome_set:
  "shuffle_outcome shuffled \<Longrightarrow> set shuffled = set (iter_str ascii_uppercase)"
  unfolding shuffle_outcome_def by (rule mset_eq_setD)

lemma shuffle_outcome_distinct: "shuffle_outcome shuffled \<Longrightarrow> distinct shuffled"
  unfolding shuffle_outcome_def
  using distinct_iter_str [OF distinct_ascii_uppercase] mset_eq_imp_distinct_iff by blast

lemma update_fresh: "k \<notin> fst ` set al \<Longrightarrow> AList.update k v al = al @ [(k, v)]"
  by (induction al) auto

lemma foldl_update_fresh:
  "distinct (map fst ps) \<Longrightarrow> fst ` set ps \<inter> fst ` set d = {} \<Longrightarrow>
   foldl (\<lambda>d (k, v). dict_set k v d) d ps = d @ ps"
proof (induction ps arbitrary: d)
  case Nil
  then show ?case by simp
next
  case (Cons kv ps)
  obtain k v where kv: "kv = (k, v)" by (cases kv)
  from Cons.prems have fresh: "k \<notin> fst ` set d" by (auto simp: kv)
  have "foldl (\<lambda>d (k, v). dict_set k v d) (d @ [(k, v)]) ps = (d @ [(k, v)]) @ ps"
    using Cons.prems by (intro Cons.IH) (auto simp: kv)
  then show ?case by (simp add: kv dict_set_def update_fresh [OF fresh])
qed

lemma dict_of_distinct: "distinct (map fst ps) \<Longrightarrow> dict_of ps = ps"
  unfolding dict_of_def using foldl_update_fresh [of ps "[]"] by simp

lemma cipher_mapping_init:
  assumes "shuffle_outcome shuffled"
  shows "cipher_mapping (Puzzle_init shuffled text) = zip (iter_str ascii_lowercase) shuffled"
proof -
  have "length (iter_str ascii_lowercase) = length shuffled"
    using shuffle_outcome_length [OF assms] by (simp add: ascii_lowercase_def)
  then have "map fst (zip (iter_str ascii_lowercase) shuffled) = iter_str ascii_lowercase"
    by simp
  then have "distinct (map fst (zip (iter_str ascii_lowercase) shuffled))"
    using distinct_iter_str [OF distinct_ascii_lowercase] by simp
  then show ?thesis
    by (simp add: Puzzle_init_def generate_cipher_def dict_of_distinct)
qed


lemma set_update_subset: "set (AList.update k v al) \<subseteq> insert (k, v) (set al)"
  by (induction al) auto

lemma set_delete_subset: "set (AList.delete k al) \<subseteq> set al"
  by (auto simp: AList.delete_eq)

lemma make_guess_loop_unique:
  "distinct (map snd items) \<Longrightarrow>
   make_guess_loop items cipher_char plain_char p =
     (if (plain_char, cipher_char) \<in> set items
      then (True, p\<lparr>user_guesses := dict_set cipher_char plain_char (user_guesses p)\<rparr>)
      else (False, p))"
proof (induction items)
  case Nil
  then show ?case by simp
next
  case (Cons item items)
  obtain real_plain_char mapped_cipher_char where item: "item = (real_plain_char, mapped_cipher_char)"
    by (cases item)
  from Cons.prems have fresh: "mapped_cipher_char \<notin> snd ` set items"
    and rest: "distinct (map snd items)" by (simp_all add: item)
  show ?case
  proof (cases "mapped_cipher_char = cipher_char")
    case True
    with fresh have "(plain_char, cipher_char) \<notin> set items" by force
    with True show ?thesis by (simp add: item)
  next
    case False
    with Cons.IH [OF rest] show ?thesis by (simp add: item)
  qed
qed

lemma make_guess_cases:
  "make_guess cipher_char plain_char p = (False, p) \<or>
   ((plain_char, cipher_char) \<in> set (cipher_mapping p) \<and>
    make_guess cipher_char plain_char p =
      (True, p\<lparr>user_guesses := dict_set cipher_char plain_char (user_guesses p)\<rparr>))"
proof -
  have "make_guess_loop items cipher_char plain_char p = (False, p) \<or>
     ((plain_char, cipher_char) \<in> set items \<and>
      make_guess_loop items cipher_char plain_char p =
        (True, p\<lparr>user_guesses := dict_set cipher_char plain_char (user_guesses p)\<rparr>))" for items
    by (induction items) (auto split: if_splits)
  then show ?thesis by (auto simp: make_guess_def)
qed

lemma give_hint_loop_cases:
  "give_hint_loop items chosen_cipher p = (None, p) \<and> chosen_cipher \<notin> snd ` set items \<or>
   (\<exists>real_plain_char. (real_plain_char, chosen_cipher) \<in> set items \<and>
      give_hint_loop items chosen_cipher p =
        (Some (chosen_cipher, real_plain_char),
         p\<lparr>user_guesses := dict_set chosen_cipher real_plain_char (user_guesses p)\<rparr>))"
proof (induction items)
  case Nil
  then show ?case by simp
next
  case (Cons item items)
  obtain real_plain_char mapped_cipher_char where item: "item = (real_plain_char, mapped_cipher_char)"
    by (cases item)
  show ?case
  proof (cases "mapped_cipher_char = chosen_cipher")
    case True
    then show ?thesis by (auto simp: item)
  next
    case False
    with Cons.IH show ?thesis by (auto simp: item)
  qed
qed

lemma give_hint_cases:
  "give_hint r p = (None, p) \<or>
   (\<exists>chosen_cipher real_plain_char. (real_plain_char, chosen_cipher) \<in> set (cipher_mapping p) \<and>
      chosen_cipher \<in> set (unguessed p) \<and>
      give_hint r p =
        (Some (chosen_cipher, real_plain_char),
         p\<lparr>user_guesses := dict_set chosen_cipher real_plain_char (user_guesses p)\<rparr>))"
proof (cases "unguessed p = []")
  case True
  then show ?thesis by (simp add: give_hint_def)
next
  case False
  then have "random_choice r (unguessed p) \<in> set (unguessed p)"
    by (simp add: random_choice_def)
  with False give_hint_loop_cases [of "cipher_mapping p" "random_choice r (unguessed p)" p]
  show ?thesis by (auto simp: give_hint_def)
qed

lemma undo_guess_cases:
  "undo_guess cipher_char p = (False, p) \<or>
   undo_guess cipher_char p = (True, p\<lparr>user_guesses := dict_del cipher_char (user_guesses p)\<rparr>)"
  by (simp add: undo_guess_def)

lemma consistent_set:
  "consistent p \<Longrightarrow> (real_plain_char, cipher_char) \<in> set (cipher_mapping p) \<Longrightarrow>
   consistent (p\<lparr>user_guesses := dict_set cipher_char real_plain_char (user_guesses p)\<rparr>)"
  using set_update_subset [of cipher_char real_plain_char "user_guesses p"]
  by (auto simp: consistent_def dict_set_def)

lemma consistent_del:
  "consistent p \<Longrightarrow> consistent (p\<lparr>user_guesses := dict_del cipher_char (user_guesses p)\<rparr>)"
  using set_delete_subset [of cipher_char "user_guesses p"]
  by (auto simp: consistent_def dict_del_def)

lemma consistent_make_guess: "consistent p \<Longrightarrow> consistent (snd (make_guess cipher_char plain_char p))"
  using make_guess_cases [of cipher_char plain_char p] by (auto intro: consistent_set)

lemma consistent_undo_guess: "consistent p \<Longrightarrow> consistent (snd (undo_guess cipher_char p))"
  using undo_guess_cases [of cipher_char p] by (auto intro: consistent_del)

lemma consistent_give_hint: "consistent p \<Longrightarrow> consistent (snd (give_hint r p))"
  using give_hint_cases [of r p] by (auto intro: consistent_set)

lemma consistent_clear: "consistent (clear_guesses p)"
  by (simp add: consistent_def clear_guesses_def)

lemma consistent_init: "consistent (Puzzle_init shuffled text)"
  by (simp add: consistent_def Puzzle_init_def generate_cipher_def)

lemma reachable_consistent: "reachable p \<Longrightarrow> consistent p"
  by (induction rule: reachable.induct)
    (simp_all add: consistent_init consistent_make_guess consistent_undo_guess
       consistent_clear consistent_give_hint)

lemma cipher_mapping_make_guess [simp]:
  "cipher_mapping (snd (make_guess cipher_char plain_char p)) = cipher_mapping p"
  using make_guess_cases [of cipher_char plain_char p] by auto

lemma cipher_mapping_undo_guess [simp]:
  "cipher_mapping (snd (undo_guess cipher_char p)) = cipher_mapping p"
  by (simp add: undo_guess_def)

lemma cipher_mapping_give_hint [simp]: "cipher_mapping (snd (give_hint r p)) = cipher_mapping p"
  using give_hint_cases [of r p] by auto

lemma cipher_mapping_clear [simp]: "cipher_mapping (clear_guesses p) = cipher_mapping p"
  by (simp add: clear_guesses_def)

lemma plaintext_make_guess [simp]:
  "plaintext (snd (make_guess cipher_char plain_char p)) = plaintext p"
  using make_guess_cases [of cipher_char plain_char p] by auto

lemma plaintext_undo_guess [simp]: "plaintext (snd (undo_guess cipher_char p)) = plaintext p"
  by (simp add: undo_guess_def)

lemma plaintext_give_hint [simp]: "plaintext (snd (give_hint r p)) = plaintext p"
  using give_hint_cases [of r p] by auto

lemma plaintext_clear [simp]: "plaintext (clear_guesses p) = plaintext p"
  by (simp add: clear_guesses_def)

lemma reachable_mapping:
  "reachable p \<Longrightarrow>
   \<exists>shuffled. shuffle_outcome shuffled \<and>
     cipher_mapping p = zip (iter_str ascii_lowercase) shuffled"
  by (induction rule: reachable.induct) (auto simp: cipher_mapping_init)

lemma reachable_plaintext: "reachable p \<Longrightarrow> \<exists>text. plaintext p = str_lower text"
  by (induction rule: reachable.induct) (auto simp: Puzzle_init_def generate_cipher_def)

lemma map_snd_mapping:
  assumes "shuffle_outcome shuffled"
  shows "map snd (zip (iter_str ascii_lowercase) shuffled) = shuffled"
    and "map fst (zip (iter_str ascii_lowercase) shuffled) = iter_str ascii_lowercase"
  using shuffle_outcome_length [OF assms] by (simp_all add: ascii_lowercase_def)

lemma reachable_distinct_cipher: "reachable p \<Longrightarrow> distinct (map snd (cipher_mapping p))"
  using reachable_mapping [of p] by (auto simp: map_snd_mapping shuffle_outcome_distinct)

lemma reachable_distinct_plain: "reachable p \<Longrightarrow> distinct (map fst (cipher_mapping p))"
  using reachable_mapping [of p] distinct_iter_str [OF distinct_ascii_lowercase]
  by (auto simp: map_snd_mapping)

lemma reachable_plain_letters:
  "reachable p \<Longrightarrow> fst ` set (cipher_mapping p) = set (iter_str ascii_lowercase)"
  using reachable_mapping [of p] map_snd_mapping(2) by (metis set_map)

lemma reachable_cipher_letters:
  "reachable p \<Longrightarrow> snd ` set (cipher_mapping p) = set (iter_str ascii_uppercase)"
  using reachable_mapping [of p] map_snd_mapping(1) shuffle_outcome_set by (metis set_map)

lemma lowercase_letter:
  "c \<in> set ascii_lowercase \<Longrightarrow> ch_islower c \<and> \<not> ch_isupper c \<and> ch_isalpha c"
  by (auto simp: ascii_lowercase_def ch_islower_def ch_isupper_def ch_isalpha_def code_point_def)

lemma uppercase_letter:
  "c \<in> set ascii_uppercase \<Longrightarrow> ch_isupper c \<and> \<not> ch_islower c \<and> ch_isalpha c"
  by (auto simp: ascii_uppercase_def ch_islower_def ch_isupper_def ch_isalpha_def code_point_def)

lemma mapping_pair_case:
  assumes "reachable p" and "(plain_char, cipher_char) \<in> set (cipher_mapping p)"
  shows "str_isupper cipher_char" and "str_islower plain_char"
proof -
  from assms have "plain_char \<in> set (iter_str ascii_lowercase)"
    using reachable_plain_letters [OF assms(1)] by force
  then show "str_islower plain_char"
    by (auto simp: set_iter_str str_islower_def lowercase_letter)
  from assms have "cipher_char \<in> set (iter_str ascii_uppercase)"
    using reachable_cipher_letters [OF assms(1)] by force
  then show "str_isupper cipher_char"
    by (auto simp: set_iter_str str_isupper_def uppercase_letter)
qed

lemma distinct_keys_step:
  "distinct (map fst d) \<Longrightarrow> distinct (map fst (dict_set k v d))"
  "distinct (map fst d) \<Longrightarrow> distinct (map fst (dict_del k d))"
  by (simp_all add: dict_set_def dict_del_def distinct_update distinct_delete)

lemma reachable_distinct_keys: "reachable p \<Longrightarrow> distinct (map fst (user_guesses p))"
proof (induction rule: reachable.induct)
  case (init shuffled quote)
  then show ?case by (simp add: Puzzle_init_def generate_cipher_def)
next
  case (guess p cipher_char plain_char)
  then show ?case using make_guess_cases [of cipher_char plain_char p]
    by (auto simp: distinct_keys_step)
next
  case (undo p cipher_char)
  then show ?case using undo_guess_cases [of cipher_char p]
    by (auto simp: distinct_keys_step)
next
  case (clear p)
  then show ?case by (simp add: clear_guesses_def)
next
  case (hint p r)
  then show ?case using give_hint_cases [of r p]
    by (auto simp: distinct_keys_step)
qed

lemma scenario_shuffle_outcome: "shuffle_outcome scenario_shuffled"
  by (simp add: shuffle_outcome_def scenario_shuffled_def ascii_uppercase_def)

lemma reachable_scenario: "reachable scenario"
  unfolding scenario_def by (rule reachable.init [OF scenario_shuffle_outcome])

lemma dict_del_set_same: "dict_del k (dict_set k v d) = dict_del k d"
  by (simp add: dict_del_def dict_set_def delete_update_same)

lemma dict_contains_set: "dict_contains k (dict_set k v d)"
  by (simp add: dict_contains_def dict_set_def dom_update)

lemma dict_del_absent: "\<not> dict_contains k d \<Longrightarrow> dict_del k d = d"
  by (simp add: dict_contains_def dict_del_def)

lemma str_isalpha_single [simp]: "str_isalpha [c] = ch_isalpha c"
  by (simp add: str_isalpha_def)

lemma str_isalnum_single [simp]: "str_isalnum [c] = ch_isalnum c"
  by (simp add: str_isalnum_def)

lemma dict_contains_map_of: "dict_contains k d \<longleftrightarrow> map_of d k \<noteq> None"
  by (simp add: dict_contains_def map_of_eq_None_iff)

lemma guess_piece_char:
  "guess_piece p [c] =
     (if ch_isalpha c
      then (case map_of (user_guesses p) [c] of Some plain_char \<Rightarrow> plain_char | None \<Rightarrow> ''_'')
      else [c])"
  by (auto simp: guess_piece_def dict_contains_map_of dict_item_def split: option.splits)

lemma revealed_value_single:
  assumes "reachable p" and "map_of (user_guesses p) k = Some v"
  shows "length v = 1"
proof -
  from assms(2) have "(k, v) \<in> set (user_guesses p)" by (rule map_of_SomeD)
  with reachable_consistent [OF assms(1)] have "(v, k) \<in> set (cipher_mapping p)"
    by (auto simp: consistent_def)
  then have "v \<in> set (iter_str ascii_lowercase)"
    using reachable_plain_letters [OF assms(1)] by force
  then show ?thesis by (auto simp: set_iter_str)
qed

lemma guess_piece_length: "reachable p \<Longrightarrow> length (guess_piece p [c]) = 1"
  by (auto simp: guess_piece_char revealed_value_single split: option.splits)

lemma join_map_singletons:
  "(\<And>c. length (f [c]) = 1) \<Longrightarrow> join (map f (iter_str s)) = map (\<lambda>c. hd (f [c])) s"
proof (induction s)
  case Nil
  then show ?case by (simp add: join_def)
next
  case (Cons c s)
  from Cons.prems [of c] have "f [c] = [hd (f [c])]"
    by (cases "f [c]") simp_all
  with Cons show ?case by (simp add: join_def)
qed

lemma get_current_guess_map:
  "reachable p \<Longrightarrow>
   get_current_guess p = map (\<lambda>c. hd (guess_piece p [c])) (get_ciphertext p)"
  unfolding get_current_guess_def by (rule join_map_singletons) (rule guess_piece_length)

lemma code_point_lower:
  assumes "ch_isupper c"
  shows "code_point (ch_lower c) = code_point c + 32"
proof -
  from assms have "code_point c \<le> 222"
    by (auto simp: ch_isupper_def Let_def)
  then have "(code_point c + 32) mod 256 = code_point c + 32"
    by simp
  with assms show ?thesis
    by (simp add: ch_lower_def) (simp add: code_point_def)
qed

lemma ch_isalnum_lower [simp]: "ch_isalnum (ch_lower c) = ch_isalnum c"
proof (cases "ch_isupper c")
  case True
  define n where "n = code_point c"
  from True have "(65 \<le> n \<and> n \<le> 90) \<or> (192 \<le> n \<and> n \<le> 214) \<or> (216 \<le> n \<and> n \<le> 222)"
    by (simp add: ch_isupper_def Let_def n_def)
  then consider "65 \<le> n \<and> n \<le> 90" | "192 \<le> n \<and> n \<le> 214" | "216 \<le> n \<and> n \<le> 222"
    by blast
  then show ?thesis
    unfolding ch_isalnum_def ch_isalpha_def Let_def code_point_lower [OF True] n_def [symmetric]
    by cases simp_all
next
  case False
  then show ?thesis by (simp add: ch_lower_def)
qed

lemma filter_iter_str: "filter str_isalnum (iter_str s) = iter_str (filter ch_isalnum s)"
  by (induction s) simp_all

lemma normalize_eq: "normalize s = spec_normalize s"
  by (simp add: normalize_def spec_normalize_def str_lower_def filter_iter_str filter_map comp_def)

section \<open>Hints\<close>

text \<open>
  A hint shortens the list of unguessed letters, so asking for hints until none is given
  always comes to an end. On a plaintext whose letters are all mapped, \<^verbatim>\<open>give_hint\<close>
  returns \<^verbatim>\<open>None\<close> only when nothing is left to reveal, and the puzzle is then solved.
\<close>

lemma cipher_piece_length:
  assumes "reachable p"
  shows "length (dict_get (cipher_mapping p) [c] [c]) = 1"
proof (cases "map_of (cipher_mapping p) [c]")
  case None
  then show ?thesis by (simp add: dict_get_def)
next
  case (Some v)
  then have "v \<in> snd ` set (cipher_mapping p)"
    by (force dest: map_of_SomeD)
  then have "v \<in> set (iter_str ascii_uppercase)"
    by (simp add: reachable_cipher_letters [OF assms])
  with Some show ?thesis by (auto simp: dict_get_def set_iter_str)
qed

lemma get_ciphertext_map:
  "reachable p \<Longrightarrow>
   get_ciphertext p = map (\<lambda>c. hd (dict_get (cipher_mapping p) [c] [c])) (plaintext p)"
  unfolding get_ciphertext_def
  by (rule join_map_singletons [where f = "\<lambda>c. dict_get (cipher_mapping p) c c"])
    (rule cipher_piece_length)

lemma get_ciphertext_user_guesses [simp]:
  "get_ciphertext (p\<lparr>user_guesses := d\<rparr>) = get_ciphertext p"
  by (simp add: get_ciphertext_def)

lemma dict_contains_set_iff:
  "dict_contains s (dict_set k v d) \<longleftrightarrow> s = k \<or> dict_contains s d"
  by (auto simp: dict_contains_def dict_set_def dom_update)

lemma unguessed_after_set:
  "unguessed (p\<lparr>user_guesses := dict_set k v (user_guesses p)\<rparr>)
     = filter (\<lambda>s. s \<noteq> k) (unguessed p)"
  by (auto simp: unguessed_def dict_contains_set_iff intro: filter_cong)

lemma give_hint_decreases:
  assumes "give_hint r p = (Some h, p')"
  shows "length (unguessed p') < length (unguessed p)"
proof -
  from assms give_hint_cases [of r p]
  obtain chosen_cipher real_plain_char where
    "chosen_cipher \<in> set (unguessed p)"
    "p' = p\<lparr>user_guesses := dict_set chosen_cipher real_plain_char (user_guesses p)\<rparr>"
    by auto
  then show ?thesis
    by (simp add: unguessed_after_set length_filter_less)
qed

lemma hint_until_none_total:
  assumes step: "\<And>r q. I q \<Longrightarrow> I (snd (give_hint r q))" and "I p"
  shows "\<exists>p' j. hint_until_none draws i p = Some p' \<and> I p' \<and> give_hint (draws j) p' = (None, p')"
  using \<open>I p\<close>
proof (induction "length (unguessed p)" arbitrary: i p rule: less_induct)
  case less
  obtain res p' where g: "give_hint (draws i) p = (res, p')"
    by (cases "give_hint (draws i) p")
  show ?case
  proof (cases res)
    case None
    with g give_hint_cases [of "draws i" p] have "p' = p" by auto
    with g None less.prems show ?thesis
      by (subst hint_until_none.simps) auto
  next
    case (Some h)
    from step [OF less.prems, of "draws i"] g have "I p'" by simp
    from less.hyps [OF give_hint_decreases [OF g [unfolded Some]] this, of "Suc i"]
    show ?thesis
      by (subst hint_until_none.simps) (simp add: g Some)
  qed
qed

lemma hint_until_none_terminates:
  "\<exists>p' j. hint_until_none draws i p = Some p' \<and> give_hint (draws j) p' = (None, p')"
  using hint_until_none_total [where I = "\<lambda>q. True"] by simp

lemma cipher_char_cases:
  assumes "reachable p" and "letters_mapped p" and "c \<in> set (plaintext p)"
  shows "(\<exists>C. ([c], [C]) \<in> set (cipher_mapping p) \<and> ch_isalpha C
            \<and> dict_get (cipher_mapping p) [c] [c] = [C]) \<or>
         (\<not> ch_isalpha c \<and> dict_get (cipher_mapping p) [c] [c] = [c])"
proof (cases "map_of (cipher_mapping p) [c]")
  case None
  then have "[c] \<notin> fst ` set (cipher_mapping p)"
    by (simp add: map_of_eq_None_iff)
  then have "c \<notin> set ascii_lowercase"
    by (auto simp: reachable_plain_letters [OF assms(1)] set_iter_str)
  with assms(2,3) have "\<not> ch_isalpha c" by (auto simp: letters_mapped_def)
  with None show ?thesis by (simp add: dict_get_def)
next
  case (Some v)
  then have m: "([c], v) \<in> set (cipher_mapping p)" by (rule map_of_SomeD)
  then have "v \<in> snd ` set (cipher_mapping p)" by force
  then obtain C where "v = [C]" "C \<in> set ascii_uppercase"
    by (auto simp: reachable_cipher_letters [OF assms(1)] set_iter_str)
  with m Some uppercase_letter [of C] show ?thesis by (auto simp: dict_get_def)
qed

lemma unguessed_mapped:
  assumes "reachable p" and "letters_mapped p" and "s \<in> set (unguessed p)"
  shows "s \<in> snd ` set (cipher_mapping p)"
proof -
  from assms(3) obtain C where s: "s = [C]" and C: "C \<in> set (get_ciphertext p)" "ch_isalpha C"
    by (auto simp: unguessed_def set_iter_str)
  from C(1) obtain c where c: "c \<in> set (plaintext p)"
    "C = hd (dict_get (cipher_mapping p) [c] [c])"
    by (auto simp: get_ciphertext_map [OF assms(1)])
  from cipher_char_cases [OF assms(1,2) c(1)] c(2) C(2) s show ?thesis
    by force
qed

lemma give_hint_none_unguessed:
  assumes "reachable p" and "letters_mapped p" and "give_hint r p = (None, p')"
  shows "unguessed p = []"
proof (rule ccontr)
  assume ne: "unguessed p \<noteq> []"
  then have "random_choice r (unguessed p) \<in> set (unguessed p)"
    by (simp add: random_choice_def)
  then have "random_choice r (unguessed p) \<in> snd ` set (cipher_mapping p)"
    by (rule unguessed_mapped [OF assms(1,2)])
  with give_hint_loop_cases [of "cipher_mapping p" "random_choice r (unguessed p)" p] assms(3) ne
  show False by (auto simp: give_hint_def)
qed

lemma exhausted_solved:
  assumes "reachable p" and "letters_mapped p" and "unguessed p = []"
  shows "is_solved p"
proof -
  have "hd (guess_piece p [hd (dict_get (cipher_mapping p) [c] [c])]) = c"
    if c: "c \<in> set (plaintext p)" for c
    using cipher_char_cases [OF assms(1,2) c]
  proof
    assume "\<exists>C. ([c], [C]) \<in> set (cipher_mapping p) \<and> ch_isalpha C
        \<and> dict_get (cipher_mapping p) [c] [c] = [C]"
    then obtain C where C: "([c], [C]) \<in> set (cipher_mapping p)" "ch_isalpha C"
      "dict_get (cipher_mapping p) [c] [c] = [C]" by blast
    from c C(3) have "C \<in> set (get_ciphertext p)"
      by (force simp: get_ciphertext_map [OF assms(1)])
    with assms(3) C(2) have "dict_contains [C] (user_guesses p)"
      by (auto simp: unguessed_def filter_empty_conv set_iter_str)
    then obtain w where w: "map_of (user_guesses p) [C] = Some w"
      by (auto simp: dict_contains_map_of)
    then have "(w, [C]) \<in> set (cipher_mapping p)"
      using reachable_consistent [OF assms(1)] by (auto simp: consistent_def dest: map_of_SomeD)
    with C(1) reachable_distinct_cipher [OF assms(1)] have "w = [c]"
      by (metis eq_key_imp_eq_value distinct_map map_of_eq_Some_iff
          inj_on_def fst_conv snd_conv)
    with w C show ?thesis by (simp add: guess_piece_char)
  next
    assume "\<not> ch_isalpha c \<and> dict_get (cipher_mapping p) [c] [c] = [c]"
    then show ?thesis by (simp add: guess_piece_char)
  qed
  then have "get_current_guess p = plaintext p"
    by (simp add: get_current_guess_map [OF assms(1)] get_ciphertext_map [OF assms(1)]
        comp_def map_idI)
  then show ?thesis by (simp add: is_solved_def)
qed

lemma letters_mapped_give_hint: "letters_mapped p \<Longrightarrow> letters_mapped (snd (give_hint r p))"
  by (simp add: letters_mapped_def)

lemma hint_exhaustion_mapped_letters:
  assumes "reachable p" and "letters_mapped p"
  shows "\<exists>p'. hint_until_none draws i p = Some p' \<and> is_solved p'"
proof -
  have "\<exists>p' j. hint_until_none draws i p = Some p' \<and> (reachable p' \<and> letters_mapped p')
      \<and> give_hint (draws j) p' = (None, p')"
    using assms
    by (intro hint_until_none_total [where I = "\<lambda>q. reachable q \<and> letters_mapped q"])
      (auto intro: reachable.hint letters_mapped_give_hint)
  then show ?thesis
    by (blast intro: exhausted_solved give_hint_none_unguessed)
qed

lemma give_hint_mapped_letters:
  assumes "reachable p" and "letters_mapped p"
  shows "(fst (give_hint r p) = None \<longleftrightarrow> unguessed p = []) \<and>
     (\<forall>cipher_char plain_char. fst (give_hint r p) = Some (cipher_char, plain_char) \<longrightarrow>
        cipher_char \<in> set (unguessed p) \<and>
        make_guess cipher_char plain_char p = (True, snd (give_hint r p)))"
proof -
  have "unguessed p = []" if "fst (give_hint r p) = None"
    using that give_hint_none_unguessed [OF assms, of r "snd (give_hint r p)"]
    by (cases "give_hint r p") simp
  moreover have "fst (give_hint r p) = None" if "unguessed p = []"
    using that by (simp add: give_hint_def)
  moreover have "cipher_char \<in> set (unguessed p) \<and>
      make_guess cipher_char plain_char p = (True, snd (give_hint r p))"
    if h: "fst (give_hint r p) = Some (cipher_char, plain_char)" for cipher_char plain_char
  proof -
    from h give_hint_cases [of r p]
    have m: "(plain_char, cipher_char) \<in> set (cipher_mapping p)"
      and u: "cipher_char \<in> set (unguessed p)"
      and g: "snd (give_hint r p) =
        p\<lparr>user_guesses := dict_set cipher_char plain_char (user_guesses p)\<rparr>"
      by auto
    from m mapping_pair_case [OF assms(1) m]
      make_guess_loop_unique [OF reachable_distinct_cipher [OF assms(1)]]
    have "make_guess cipher_char plain_char p =
        (True, p\<lparr>user_guesses := dict_set cipher_char plain_char (user_guesses p)\<rparr>)"
      by (simp add: make_guess_def)
    with u g show ?thesis by simp
  qed
  ultimately show ?thesis by blast
qed

section \<open>The claims\<close>

text \<open>
  C1. In every reachable puzzle each pair \<open>(cipher_char, plain_char)\<close> of
  \<^verbatim>\<open>user_guesses\<close> agrees with the cipher mapping: the revealed pairs are a subset of
  the inverse of the mapping, whatever calls of \<^verbatim>\<open>make_guess\<close>, \<^verbatim>\<open>undo_guess\<close>,
  \<^verbatim>\<open>clear_guesses\<close> and \<^verbatim>\<open>give_hint\<close> led to the puzzle.
\<close>

theorem revealed_agrees_with_mapping:
  "reachable p \<Longrightarrow> set (user_guesses p) \<subseteq> (set (cipher_mapping p))\<inverse>"
  using reachable_consistent [of p] by (simp add: consistent_def)

theorem revealed_agrees_with_mapping_witness:
  "reachable (snd (make_guess ''Q'' ''h'' scenario)) \<and>
   user_guesses (snd (make_guess ''Q'' ''h'' scenario)) = [(''Q'', ''h'')] \<and>
   set (user_guesses (snd (make_guess ''Q'' ''h'' scenario)))
     \<subseteq> (set (cipher_mapping (snd (make_guess ''Q'' ''h'' scenario))))\<inverse>"
proof -
  have r: "reachable (snd (make_guess ''Q'' ''h'' scenario))"
    by (rule reachable.guess [OF reachable_scenario])
  have "user_guesses (snd (make_guess ''Q'' ''h'' scenario)) = [(''Q'', ''h'')]"
    by code_simp
  with r revealed_agrees_with_mapping [OF r] show ?thesis by simp
qed

text \<open>
  C2. \<^verbatim>\<open>make_guess\<close> returns \<^verbatim>\<open>False\<close> and leaves the puzzle as it is unless the cipher
  token is uppercase and the plain token lowercase; under the case convention it
  returns \<^verbatim>\<open>True\<close> and stores the pair exactly when the mapping sends the plain token to
  the cipher token, and otherwise (a wrong letter, or a token that is no cipher letter)
  returns \<^verbatim>\<open>False\<close> with the puzzle unchanged.
\<close>

theorem make_guess_contract:
  assumes "reachable p"
  shows "make_guess cipher_char plain_char p =
     (if str_isupper cipher_char \<and> str_islower plain_char
         \<and> map_of (cipher_mapping p) plain_char = Some cipher_char
      then (True, p\<lparr>user_guesses := dict_set cipher_char plain_char (user_guesses p)\<rparr>)
      else (False, p))"
  using make_guess_loop_unique [OF reachable_distinct_cipher [OF assms]]
    reachable_distinct_plain [OF assms]
  by (simp add: make_guess_def)

theorem make_guess_contract_witness:
  "make_guess ''Q'' ''h'' scenario = (True, scenario\<lparr>user_guesses := [(''Q'', ''h'')]\<rparr>) \<and>
   make_guess ''Q'' ''x'' scenario = (False, scenario) \<and>
   make_guess ''q'' ''h'' scenario = (False, scenario) \<and>
   make_guess ''?'' ''h'' scenario = (False, scenario)"
proof -
  have c: "map_of (cipher_mapping scenario) ''h'' = Some ''Q''"
    "map_of (cipher_mapping scenario) ''x'' = Some ''W''"
    "str_isupper ''Q''" "str_islower ''h''" "str_islower ''x''" "\<not> str_isupper ''q''"
    "\<not> str_isupper ''?''" "user_guesses scenario = []"
    by code_simp+
  show ?thesis
    using make_guess_contract [OF reachable_scenario]
    by (simp add: c dict_set_def)
qed

text \<open>
  C3. \<^verbatim>\<open>is_solved\<close> holds if and only if the current guess equals the stored plaintext,
  character for character.
\<close>

theorem is_solved_iff: "is_solved p \<longleftrightarrow> get_current_guess p = plaintext p"
  by (simp add: is_solved_def)

theorem is_solved_iff_witness:
  "is_solved (snd (make_guess ''Z'' ''i'' (snd (make_guess ''Q'' ''h'' (Puzzle_init scenario_shuffled ''Hi!'')))))
   \<and> \<not> is_solved scenario"
proof -
  have "get_current_guess (snd (make_guess ''Z'' ''i'' (snd (make_guess ''Q'' ''h'' (Puzzle_init scenario_shuffled ''Hi!''))))) = ''hi!''"
    "plaintext (snd (make_guess ''Z'' ''i'' (snd (make_guess ''Q'' ''h'' (Puzzle_init scenario_shuffled ''Hi!''))))) = ''hi!''"
    "get_current_guess scenario = ''__ _____''" "plaintext scenario = ''hi there''"
    by code_simp+
  then show ?thesis
    using is_solved_iff [of "snd (make_guess ''Z'' ''i'' (snd (make_guess ''Q'' ''h'' (Puzzle_init scenario_shuffled ''Hi!''))))"]
      is_solved_iff [of scenario]
    by simp
qed

text \<open>
  C10. In a reachable puzzle, guessing again a pair that is already revealed returns
  \<^verbatim>\<open>True\<close> and leaves the puzzle, and so the revealed pairs, exactly as they were.
\<close>

theorem reguess_idempotent:
  assumes "reachable p" and "(cipher_char, plain_char) \<in> set (user_guesses p)"
  shows "make_guess cipher_char plain_char p = (True, p)"
proof -
  from assms have m: "(plain_char, cipher_char) \<in> set (cipher_mapping p)"
    using reachable_consistent [OF assms(1)] by (auto simp: consistent_def)
  have "map_of (user_guesses p) cipher_char = Some plain_char"
    using assms(2) reachable_distinct_keys [OF assms(1)] by simp
  then have "dict_set cipher_char plain_char (user_guesses p) = user_guesses p"
    by (simp add: dict_set_def update_triv)
  with m mapping_pair_case [OF assms(1) m]
    make_guess_loop_unique [OF reachable_distinct_cipher [OF assms(1)]]
  show ?thesis by (simp add: make_guess_def)
qed

theorem reguess_idempotent_witness:
  "reachable (snd (make_guess ''Q'' ''h'' scenario)) \<and>
   (''Q'', ''h'') \<in> set (user_guesses (snd (make_guess ''Q'' ''h'' scenario))) \<and>
   make_guess ''Q'' ''h'' (snd (make_guess ''Q'' ''h'' scenario))
     = (True, snd (make_guess ''Q'' ''h'' scenario))"
proof -
  have r: "reachable (snd (make_guess ''Q'' ''h'' scenario))"
    by (rule reachable.guess [OF reachable_scenario])
  have m: "(''Q'', ''h'') \<in> set (user_guesses (snd (make_guess ''Q'' ''h'' scenario)))"
    by code_simp
  show ?thesis using r m reguess_idempotent [OF r m] by simp
qed

text \<open>
  C6. The whole-text solve command reports success if and only if the candidate text and
  the plaintext are equal after normalization, which removes every character that is
  not alphanumeric and lowercases; it changes no puzzle: every puzzle registered after
  the call was registered before it, unchanged.
\<close>

theorem solve_puzzle_normalized:
  assumes "active_puzzles author = Some puzzle"
  shows "(fst (solve_puzzle author guess_text active_puzzles) = Congratulations
          \<longleftrightarrow> spec_normalize guess_text = spec_normalize (plaintext puzzle)) \<and>
     (fst (solve_puzzle author guess_text active_puzzles) = Sorry_no_match
          \<longleftrightarrow> spec_normalize guess_text \<noteq> spec_normalize (plaintext puzzle)) \<and>
     (\<forall>user q. snd (solve_puzzle author guess_text active_puzzles) user = Some q
          \<longrightarrow> active_puzzles user = Some q)"
  using assms by (auto simp: solve_puzzle_def normalize_eq Let_def split: if_splits)

theorem solve_puzzle_normalized_witness:
  "(Map.empty(7 \<mapsto> scenario)) (7::int) = Some scenario \<and>
   fst (solve_puzzle 7 ''Hi, there!'' (Map.empty(7 \<mapsto> scenario))) = Congratulations \<and>
   fst (solve_puzzle 7 ''hithere'' (Map.empty(7 \<mapsto> scenario))) = Congratulations \<and>
   fst (solve_puzzle 7 ''hi there!!'' (Map.empty(7 \<mapsto> scenario))) = Congratulations \<and>
   fst (solve_puzzle 7 ''hithereextra'' (Map.empty(7 \<mapsto> scenario))) = Sorry_no_match \<and>
   snd (solve_puzzle 7 ''hithereextra'' (Map.empty(7 \<mapsto> scenario))) 7 = Some scenario"
proof -
  have a: "(Map.empty(7 \<mapsto> scenario)) (7::int) = Some scenario" by simp
  have n: "spec_normalize (plaintext scenario) = ''hithere''"
    "spec_normalize ''Hi, there!'' = ''hithere''"
    "spec_normalize ''hithere'' = ''hithere''"
    "spec_normalize ''hi there!!'' = ''hithere''"
    "spec_normalize ''hithereextra'' = ''hithereextra''"
    by code_simp+
  have "snd (solve_puzzle 7 ''hithereextra'' (Map.empty(7 \<mapsto> scenario))) 7 = Some scenario"
    using solve_puzzle_normalized [of "Map.empty(7 \<mapsto> scenario)" 7 scenario "''hithereextra''", OF a]
    by (simp add: n solve_puzzle_def normalize_eq)
  then show ?thesis
    using solve_puzzle_normalized [of "Map.empty(7 \<mapsto> scenario)" 7 scenario "''Hi, there!''", OF a]
      solve_puzzle_normalized [of "Map.empty(7 \<mapsto> scenario)" 7 scenario "''hithere''", OF a]
      solve_puzzle_normalized [of "Map.empty(7 \<mapsto> scenario)" 7 scenario "''hi there!!''", OF a]
      solve_puzzle_normalized [of "Map.empty(7 \<mapsto> scenario)" 7 scenario "''hithereextra''", OF a]
    by (simp add: n)
qed

text \<open>
  C7, as amended. When \<^verbatim>\<open>make_guess\<close> on a cipher letter returns \<^verbatim>\<open>True\<close>, the
  following \<^verbatim>\<open>undo_guess\<close> on that letter returns \<^verbatim>\<open>True\<close> and leaves the puzzle as it
  was before the guess with the entry of that letter removed; so it restores the puzzle
  exactly when the letter was not revealed before the guess.
\<close>

theorem undo_after_guess:
  assumes "fst (make_guess cipher_char plain_char p)"
  shows "fst (undo_guess cipher_char (snd (make_guess cipher_char plain_char p))) \<and>
     snd (undo_guess cipher_char (snd (make_guess cipher_char plain_char p)))
       = p\<lparr>user_guesses := dict_del cipher_char (user_guesses p)\<rparr> \<and>
     (\<not> dict_contains cipher_char (user_guesses p) \<longrightarrow>
        snd (undo_guess cipher_char (snd (make_guess cipher_char plain_char p))) = p)"
proof -
  from assms make_guess_cases [of cipher_char plain_char p]
  have g: "make_guess cipher_char plain_char p =
      (True, p\<lparr>user_guesses := dict_set cipher_char plain_char (user_guesses p)\<rparr>)"
    by auto
  show ?thesis
    by (simp add: g undo_guess_def dict_contains_set dict_del_set_same dict_del_absent)
qed

theorem undo_after_guess_witness:
  "fst (make_guess ''Q'' ''h'' scenario) \<and>
   \<not> dict_contains ''Q'' (user_guesses scenario) \<and>
   fst (undo_guess ''Q'' (snd (make_guess ''Q'' ''h'' scenario))) \<and>
   snd (undo_guess ''Q'' (snd (make_guess ''Q'' ''h'' scenario))) = scenario"
proof -
  have g: "fst (make_guess ''Q'' ''h'' scenario)"
    and f: "\<not> dict_contains ''Q'' (user_guesses scenario)"
    by code_simp+
  show ?thesis using g f undo_after_guess [OF g] by blast
qed

text \<open>
  C7, as stated, fails: a letter that is already revealed can be guessed again with
  success, and the undo then removes the entry that was there before the guess.
\<close>

theorem undo_after_guess_counterexample:
  "reachable (snd (make_guess ''Q'' ''h'' scenario)) \<and>
   fst (make_guess ''Q'' ''h'' (snd (make_guess ''Q'' ''h'' scenario))) \<and>
   user_guesses (snd (make_guess ''Q'' ''h'' scenario)) = [(''Q'', ''h'')] \<and>
   user_guesses (snd (undo_guess ''Q''
       (snd (make_guess ''Q'' ''h'' (snd (make_guess ''Q'' ''h'' scenario)))))) = [] \<and>
   user_guesses (snd (undo_guess ''Q''
       (snd (make_guess ''Q'' ''h'' (snd (make_guess ''Q'' ''h'' scenario))))))
     \<noteq> user_guesses (snd (make_guess ''Q'' ''h'' scenario))"
proof -
  have r: "reachable (snd (make_guess ''Q'' ''h'' scenario))"
    by (rule reachable.guess [OF reachable_scenario])
  have "fst (make_guess ''Q'' ''h'' (snd (make_guess ''Q'' ''h'' scenario)))"
    "user_guesses (snd (make_guess ''Q'' ''h'' scenario)) = [(''Q'', ''h'')]"
    "user_guesses (snd (undo_guess ''Q''
       (snd (make_guess ''Q'' ''h'' (snd (make_guess ''Q'' ''h'' scenario)))))) = []"
    by code_simp+
  with r show ?thesis by simp
qed

text \<open>
  C8. Whatever the outcome of the shuffle, the generated mapping has 26 entries, its keys
  are the 26 lowercase letters, each once, and its values are the 26 uppercase letters,
  each once.
\<close>

theorem generate_cipher_bijection:
  assumes "shuffle_outcome shuffled"
  shows "length (cipher_mapping (generate_cipher shuffled p)) = 26 \<and>
     distinct (map fst (cipher_mapping (generate_cipher shuffled p))) \<and>
     set (map fst (cipher_mapping (generate_cipher shuffled p))) = set (iter_str ascii_lowercase) \<and>
     distinct (map snd (cipher_mapping (generate_cipher shuffled p))) \<and>
     set (map snd (cipher_mapping (generate_cipher shuffled p))) = set (iter_str ascii_uppercase)"
proof -
  have keys: "distinct (map fst (zip (iter_str ascii_lowercase) shuffled))"
    using distinct_iter_str [OF distinct_ascii_lowercase] by (simp add: map_snd_mapping [OF assms])
  have cm: "cipher_mapping (generate_cipher shuffled p) = zip (iter_str ascii_lowercase) shuffled"
    by (simp add: generate_cipher_def dict_of_distinct [OF keys])
  have "length (zip (iter_str ascii_lowercase) shuffled) = 26"
    using shuffle_outcome_length [OF assms] by (simp add: ascii_lowercase_def)
  then show ?thesis
    using keys shuffle_outcome_distinct [OF assms] shuffle_outcome_set [OF assms]
    by (simp add: cm map_snd_mapping [OF assms])
qed

theorem generate_cipher_bijection_witness:
  "shuffle_outcome scenario_shuffled \<and>
   length (cipher_mapping scenario) = 26 \<and>
   distinct (map fst (cipher_mapping scenario)) \<and>
   set (map fst (cipher_mapping scenario)) = set (iter_str ascii_lowercase) \<and>
   distinct (map snd (cipher_mapping scenario)) \<and>
   set (map snd (cipher_mapping scenario)) = set (iter_str ascii_uppercase)"
  using scenario_shuffle_outcome generate_cipher_bijection [OF scenario_shuffle_outcome]
  by (simp add: scenario_def Puzzle_init_def)

text \<open>
  C9. In a reachable puzzle the current guess is as long as the ciphertext, and at each
  position an alphabetic ciphertext character that is revealed shows its plaintext
  letter, an alphabetic one that is not revealed shows an underscore, and any other
  character shows unchanged.
\<close>

theorem current_guess_layout:
  assumes "reachable p"
  shows "length (get_current_guess p) = length (get_ciphertext p) \<and>
     (\<forall>i < length (get_ciphertext p).
        [get_current_guess p ! i] =
          (if ch_isalpha (get_ciphertext p ! i)
           then (case map_of (user_guesses p) [get_ciphertext p ! i] of
                   Some plain_char \<Rightarrow> plain_char
                 | None \<Rightarrow> ''_'')
           else [get_ciphertext p ! i]))"
proof -
  have single: "[hd (guess_piece p [c])] = guess_piece p [c]" for c
    using guess_piece_length [OF assms, of c] by (cases "guess_piece p [c]") simp_all
  have "[get_current_guess p ! i] = guess_piece p [get_ciphertext p ! i]"
    if "i < length (get_ciphertext p)" for i
    using that by (simp add: get_current_guess_map [OF assms] single)
  then show ?thesis
    by (simp add: get_current_guess_map [OF assms] guess_piece_char)
qed

theorem current_guess_layout_witness:
  "reachable (snd (make_guess ''Q'' ''h'' scenario)) \<and>
   get_ciphertext (snd (make_guess ''Q'' ''h'' scenario)) = ''QZ MQXKX'' \<and>
   get_current_guess (snd (make_guess ''Q'' ''h'' scenario)) = ''h_ _h___'' \<and>
   length (get_current_guess (snd (make_guess ''Q'' ''h'' scenario)))
     = length (get_ciphertext (snd (make_guess ''Q'' ''h'' scenario))) \<and>
   [get_current_guess (snd (make_guess ''Q'' ''h'' scenario)) ! 4] = ''h'' \<and>
   [get_current_guess (snd (make_guess ''Q'' ''h'' scenario)) ! 1] = ''_'' \<and>
   [get_current_guess (snd (make_guess ''Q'' ''h'' scenario)) ! 2] = '' ''"
proof -
  have r: "reachable (snd (make_guess ''Q'' ''h'' scenario))"
    by (rule reachable.guess [OF reachable_scenario])
  have c: "get_ciphertext (snd (make_guess ''Q'' ''h'' scenario)) = ''QZ MQXKX''"
    and g: "get_current_guess (snd (make_guess ''Q'' ''h'' scenario)) = ''h_ _h___''"
    by code_simp+
  from current_guess_layout [OF r] r show ?thesis
    by (simp add: c g)
qed

text \<open>
  C4 says that \<^verbatim>\<open>give_hint\<close> returns nothing only if no alphabetic character of the
  ciphertext is left unrevealed, and otherwise reveals one of them. The code departs
  from it on a plaintext with a letter outside \<open>a\<close> to \<open>z\<close>: such a letter is alphabetic,
  is enciphered as itself and is listed as unguessed, but no item of the mapping has it
  as cipher letter. On the puzzle \<open>cafe\<close> the unguessed list holds \<open>D\<close>, \<open>B\<close>, \<open>F\<close> and the
  accented letter; when the draw selects the last, \<^verbatim>\<open>give_hint\<close> returns \<^verbatim>\<open>None\<close> and
  changes nothing, with three cipher letters still to reveal.
\<close>

theorem give_hint_unmapped_letter:
  "plaintext cafe = [CHR ''c'', CHR ''a'', CHR ''f'', CHR 0xE9] \<and>
   get_ciphertext cafe = [CHR ''D'', CHR ''B'', CHR ''F'', CHR 0xE9] \<and>
   unguessed cafe = [''D'', ''B'', ''F'', [CHR 0xE9]] \<and>
   give_hint 3 cafe = (None, cafe)"
  by code_simp

text \<open>
  C5 says that asking for hints until none is given ends with a solved puzzle. The
  calls do come to an end (\<open>hint_until_none_terminates\<close>), but on the puzzle \<open>cafe\<close>
  they end, after \<open>D\<close>, \<open>B\<close> and \<open>F\<close> have been revealed, with the guess \<open>caf_\<close>:
  \<^verbatim>\<open>give_hint\<close> returns \<^verbatim>\<open>None\<close> and \<^verbatim>\<open>is_solved\<close> is false.
\<close>

theorem hint_exhaustion_unsolved:
  "hint_until_none (\<lambda>i. 0) 0 cafe
     = Some (cafe\<lparr>user_guesses := [(''D'', ''c''), (''B'', ''a''), (''F'', ''f'')]\<rparr>) \<and>
   give_hint 0 (cafe\<lparr>user_guesses := [(''D'', ''c''), (''B'', ''a''), (''F'', ''f'')]\<rparr>)
     = (None, cafe\<lparr>user_guesses := [(''D'', ''c''), (''B'', ''a''), (''F'', ''f'')]\<rparr>) \<and>
   get_current_guess (cafe\<lparr>user_guesses := [(''D'', ''c''), (''B'', ''a''), (''F'', ''f'')]\<rparr>)
     = ''caf_'' \<and>
   \<not> is_solved (cafe\<lparr>user_guesses := [(''D'', ''c''), (''B'', ''a''), (''F'', ''f'')]\<rparr>)"
proof -
  have "hint_until_none (\<lambda>i. 0) 0 cafe
     = Some (cafe\<lparr>user_guesses := [(''D'', ''c''), (''B'', ''a''), (''F'', ''f'')]\<rparr>)"
    apply (subst hint_until_none.simps)
    apply (subst hint_until_none.simps)
    apply (subst hint_until_none.simps)
    apply (subst hint_until_none.simps)
    apply code_simp
    done
  moreover have
    "give_hint 0 (cafe\<lparr>user_guesses := [(''D'', ''c''), (''B'', ''a''), (''F'', ''f'')]\<rparr>)
       = (None, cafe\<lparr>user_guesses := [(''D'', ''c''), (''B'', ''a''), (''F'', ''f'')]\<rparr>)"
    "get_current_guess (cafe\<lparr>user_guesses := [(''D'', ''c''), (''B'', ''a''), (''F'', ''f'')]\<rparr>)
       = ''caf_''"
    "\<not> is_solved (cafe\<lparr>user_guesses := [(''D'', ''c''), (''B'', ''a''), (''F'', ''f'')]\<rparr>)"
    by code_simp+
  ultimately show ?thesis by simp
qed

end
